theory Spec2Isabelle
  imports Main "HOL-Library.Multiset"
begin

section \<open>YoutubeMixDownloader: a shallow embedding of downloader.py\<close>

text \<open>
  The class drives two collaborators, a browser and a media-download service, and reports
  to an optional progress callback. Everything those collaborators answer is taken from a
  script (record \<open>env\<close>), every call made to them is written to a trace of events, and
  every Python exception is a value: a function returns \<open>(Inl e, trace)\<close> when it
  propagates the exception \<open>e\<close> and \<open>(Inr v, trace)\<close> when it returns \<open>v\<close>.
  The scroll loop of \<open>get_mix_videos\<close> has no bound on its rounds, so it is a partial
  function: \<open>None\<close> is a run that never returns.
\<close>

subsection \<open>Data\<close>

text \<open>An instance of Python's \<open>Exception\<close>, with the text \<open>str(e)\<close> gives.\<close>

datatype exn = Exn string

fun str_exn :: "exn \<Rightarrow> string" where
  "str_exn (Exn s) = s"

text \<open>
  \<open>progress_callback\<close>: absent, or a callable that is handed the message and either
  returns (\<open>None\<close>) or raises.
\<close>

type_synonym sink = "string \<Rightarrow> exn option"

record downloader =
  output_path :: string
  progress_callback :: "sink option"

text \<open>The status messages of the class, one constructor for each format string.\<close>

datatype msg =
    LoadingPage
  | FoundVideos nat
  | Starting
  | Processing nat nat
  | Downloading string string
  | Downloaded string
  | ErrorDownloading string
  | Complete nat

datatype event =
    Notify msg
  | SetupDriver
  | DriverGet string
  | ExecuteScript
  | FindElements
  | DriverQuit
  | Sleep nat
  | PathExists string
  | MakeDirs string
  | ExtractInfo string

text \<open>What one anchor element answers to \<open>get_attribute("href")\<close>.\<close>

datatype attr = AttrRaises exn | Attr "string option"

text \<open>
  One scroll round as the browser plays it: \<open>execute_script\<close> raises, or
  \<open>find_elements\<close> raises, or it returns the matched anchors.
\<close>

datatype round = ScrollRaises exn | FindRaises exn | Found "attr list"

text \<open>
  What a dictionary holds under a key whose value is put into a message: no such key, the
  value \<open>None\<close>, or a string. \<open>get_text\<close> is the text that an f-string prints for
  \<open>d.get(key, fallback)\<close>.
\<close>

datatype entry = KeyMissing | ValueNone | Value string

fun get_text :: "entry \<Rightarrow> string \<Rightarrow> string" where
  "get_text KeyMissing fallback = fallback"
| "get_text ValueNone fallback = ''None''"
| "get_text (Value t) fallback = t"

text \<open>
  One call of the download service: the dictionaries it hands to the progress hook while
  it transfers, then what \<open>extract_info\<close> gives: an exception, a falsy value
  (\<open>NoInfo\<close>), or metadata with its entry for the key \<open>title\<close>.
\<close>

record hook =
  status :: string
  percent_str :: entry
  total_bytes_str :: entry

datatype info = NoInfo | Info entry

record dl_script =
  path_exists :: bool
  makedirs :: "exn option"
  hooks :: "hook list"
  extract_info :: "exn + info"

text \<open>
  The surroundings of one scrape. \<open>clean_youtube_url\<close> is imported from the module
  \<open>utils\<close> and is a parameter here; \<open>rounds i\<close> is what the browser shows in scroll
  round \<open>i\<close>. The download service is scripted apart, by a function \<open>dls\<close> that gives
  for \<open>k\<close> what happens at the \<open>k\<close>-th item of the batch (counted from 1, as
  \<open>enumerate\<close> does).
\<close>

record env =
  clean_youtube_url :: "string \<Rightarrow> string"
  setup_driver :: "exn option"
  driver_get :: "exn option"
  rounds :: "nat \<Rightarrow> round"
  driver_quit :: "exn option"

subsection \<open>Strings\<close>

text \<open>\<open>str(n)\<close> for a natural number.\<close>

fun str_nat :: "nat \<Rightarrow> string" where
  "str_nat n =
     (if n < 10 then [''0123456789'' ! n]
      else str_nat (n div 10) @ [''0123456789'' ! (n mod 10)])"

declare str_nat.simps [simp del]

text \<open>Python's \<open>needle in haystack\<close> on strings.\<close>

fun starts_with :: "string \<Rightarrow> string \<Rightarrow> bool" where
  "starts_with [] s = True"
| "starts_with (c # cs) [] = False"
| "starts_with (c # cs) (d # ds) = (c = d \<and> starts_with cs ds)"

fun str_in :: "string \<Rightarrow> string \<Rightarrow> bool" where
  "str_in needle [] = (needle = [])"
| "str_in needle (c # cs) = (starts_with needle (c # cs) \<or> str_in needle cs)"

fun render :: "msg \<Rightarrow> string" where
  "render LoadingPage = ''Loading playlist page...''"
| "render (FoundVideos k) = ''Found '' @ str_nat k @ '' videos...''"
| "render Starting = ''Starting YouTube Mix downloader...''"
| "render (Processing i k) = ''['' @ str_nat i @ ''/'' @ str_nat k @ ''] Processing video...''"
| "render (Downloading p t) = ''Downloading: '' @ p @ '' of '' @ t"
| "render (Downloaded t) = ''Successfully downloaded: '' @ t"
| "render (ErrorDownloading e) = ''Error downloading video: '' @ e"
| "render (Complete k) =
     ''Download complete! Successfully downloaded '' @ str_nat k @ '' videos.''"

subsection \<open>The progress callback\<close>

text \<open>
  \<open>if self.progress_callback: self.progress_callback(text)\<close>: the exception raised, if
  any, and the events of the call.
\<close>

definition notify :: "downloader \<Rightarrow> msg \<Rightarrow> exn option \<times> event list" where
  "notify self m =
     (case progress_callback self of
        None \<Rightarrow> (None, [])
      | Some cb \<Rightarrow> (cb (render m), [Notify m]))"

text \<open>The events \<open>tr\<close> happened, then the run \<open>p\<close>.\<close>

definition after :: "event list \<Rightarrow> 'a \<times> event list \<Rightarrow> 'a \<times> event list" where
  "after tr p = (fst p, tr @ snd p)"

subsection \<open>get_mix_videos\<close>

text \<open>
  Lines 68 to 73: the \<open>for\<close> loop over the anchors of one round. An href is kept when it
  is truthy and contains \<open>watch?v=\<close>; its cleaned form is appended unless it is in the
  list.
\<close>

fun harvest :: "(string \<Rightarrow> string) \<Rightarrow> attr list \<Rightarrow> string list \<Rightarrow> exn + string list" where
  "harvest clean [] video_urls = Inr video_urls"
| "harvest clean (AttrRaises e # items) video_urls = Inl e"
| "harvest clean (Attr None # items) video_urls = harvest clean items video_urls"
| "harvest clean (Attr (Some href) # items) video_urls =
     (if href \<noteq> [] \<and> str_in ''watch?v='' href
      then (let clean_url = clean href
            in if clean_url \<notin> set video_urls
               then harvest clean items (video_urls @ [clean_url])
               else harvest clean items video_urls)
      else harvest clean items video_urls)"

text \<open>
  \<open>dict.fromkeys(keys)\<close> read back as a list: the keys are inserted one by one into the
  dictionary \<open>d\<close> (its keys in insertion order); a key that is there keeps its place.
\<close>

fun fromkeys :: "'a list \<Rightarrow> 'a list \<Rightarrow> 'a list" where
  "fromkeys [] d = d"
| "fromkeys (k # ks) d = fromkeys ks (if k \<in> set d then d else d @ [k])"

text \<open>Lines 68 to 75: the harvest of one round, then \<open>list(dict.fromkeys(video_urls))\<close>.\<close>

definition scroll_round :: "(string \<Rightarrow> string) \<Rightarrow> attr list \<Rightarrow> string list \<Rightarrow> exn + string list" where
  "scroll_round clean items video_urls =
     (case harvest clean items video_urls of
        Inl e \<Rightarrow> Inl e
      | Inr vs \<Rightarrow> Inr (fromkeys vs []))"

text \<open>
  Lines 61 to 80: the \<open>while\<close> loop, from round \<open>i\<close> on, with the list collected so far.
\<close>

partial_function (option) scroll_loop ::
  "downloader \<Rightarrow> env \<Rightarrow> int \<Rightarrow> nat \<Rightarrow> string list \<Rightarrow> ((exn + string list) \<times> event list) option"
where
  "scroll_loop self w num_videos i video_urls =
     (if int (length video_urls) < num_videos then
        (case rounds w i of
           ScrollRaises e \<Rightarrow> Some (Inl e, [ExecuteScript])
         | FindRaises e \<Rightarrow> Some (Inl e, [ExecuteScript, Sleep 2, FindElements])
         | Found items \<Rightarrow>
             (case scroll_round (clean_youtube_url w) items video_urls of
                Inl e \<Rightarrow> Some (Inl e, [ExecuteScript, Sleep 2, FindElements])
              | Inr vs \<Rightarrow>
                  (case notify self (FoundVideos (length vs)) of
                     (Some e, tr) \<Rightarrow> Some (Inl e, [ExecuteScript, Sleep 2, FindElements] @ tr)
                   | (None, tr) \<Rightarrow>
                       if num_videos \<le> int (length vs)
                       then Some (Inr vs, [ExecuteScript, Sleep 2, FindElements] @ tr)
                       else Option.bind (scroll_loop self w num_videos (Suc i) vs)
                              (\<lambda>p. Some (after ([ExecuteScript, Sleep 2, FindElements] @ tr) p)))))
      else Some (Inr video_urls, []))"

declare scroll_loop.simps [code]

text \<open>Python's \<open>xs[:n]\<close>: a negative \<open>n\<close> counts from the end.\<close>

definition slice_to :: "'a list \<Rightarrow> int \<Rightarrow> 'a list" where
  "slice_to xs n = take (nat (if n < 0 then int (length xs) + n else n)) xs"

text \<open>Lines 56 to 80: the body of the \<open>try\<close> block.\<close>

definition try_body ::
  "downloader \<Rightarrow> env \<Rightarrow> string \<Rightarrow> int \<Rightarrow> ((exn + string list) \<times> event list) option" where
  "try_body self w mix_url num_videos =
     (case notify self LoadingPage of
        (Some e, tr) \<Rightarrow> Some (Inl e, tr)
      | (None, tr) \<Rightarrow>
          (case driver_get w of
             Some e \<Rightarrow> Some (Inl e, tr @ [DriverGet mix_url])
           | None \<Rightarrow>
               Option.bind (scroll_loop self w num_videos 0 [])
                 (\<lambda>p. Some (after (tr @ [DriverGet mix_url, Sleep 3]) p))))"

text \<open>
  The whole method. The driver is set up before the \<open>try\<close>; \<open>driver.quit()\<close> is the
  \<open>finally\<close> clause, and an exception it raises replaces the one in flight.
\<close>

definition get_mix_videos ::
  "downloader \<Rightarrow> env \<Rightarrow> string \<Rightarrow> int \<Rightarrow> ((exn + string list) \<times> event list) option" where
  "get_mix_videos self w mix_url num_videos =
     (case setup_driver w of
        Some e \<Rightarrow> Some (Inl e, [SetupDriver])
      | None \<Rightarrow>
          (case try_body self w mix_url num_videos of
             None \<Rightarrow> None
           | Some (r, tr) \<Rightarrow>
               (case driver_quit w of
                  Some e \<Rightarrow> Some (Inl e, SetupDriver # tr @ [DriverQuit])
                | None \<Rightarrow>
                    (case r of
                       Inl e \<Rightarrow> Some (Inl e, SetupDriver # tr @ [DriverQuit])
                     | Inr video_urls \<Rightarrow>
                         Some (Inr (slice_to video_urls num_videos),
                               SetupDriver # tr @ [DriverQuit])))))"

subsection \<open>download_video and download_mix\<close>

text \<open>
  The progress hook of lines 116 to 120, called by the service with each dictionary: it
  reports the ones whose status is \<open>downloading\<close>. An exception of the callback leaves
  the service through \<open>extract_info\<close>.
\<close>

fun run_hooks :: "downloader \<Rightarrow> hook list \<Rightarrow> exn option \<times> event list" where
  "run_hooks self [] = (None, [])"
| "run_hooks self (d # ds) =
     (if status d = ''downloading''
      then (case notify self
                   (Downloading (get_text (percent_str d) ''0%'')
                                (get_text (total_bytes_str d) ''Unknown'')) of
              (Some e, tr) \<Rightarrow> (Some e, tr)
            | (None, tr) \<Rightarrow> after tr (run_hooks self ds))
      else run_hooks self ds)"

text \<open>Lines 98 to 129: the body of the \<open>try\<close> block of \<open>download_video\<close>.\<close>

definition try_download :: "downloader \<Rightarrow> dl_script \<Rightarrow> string \<Rightarrow> (exn + bool) \<times> event list" where
  "try_download self s url =
     (case (if \<not> path_exists s
            then (makedirs s, [PathExists (output_path self), MakeDirs (output_path self)])
            else (None, [PathExists (output_path self)])) of
        (Some e, tr) \<Rightarrow> (Inl e, tr)
      | (None, tr) \<Rightarrow>
          (case run_hooks self (hooks s) of
             (Some e, tr') \<Rightarrow> (Inl e, tr @ [ExtractInfo url] @ tr')
           | (None, tr') \<Rightarrow>
               (case extract_info s of
                  Inl e \<Rightarrow> (Inl e, tr @ [ExtractInfo url] @ tr')
                | Inr NoInfo \<Rightarrow> (Inr False, tr @ [ExtractInfo url] @ tr')
                | Inr (Info title) \<Rightarrow>
                    (case notify self
                            (Downloaded (get_text title ''Unknown title'')) of
                       (Some e, tr'') \<Rightarrow> (Inl e, tr @ [ExtractInfo url] @ tr' @ tr'')
                     | (None, tr'') \<Rightarrow> (Inr True, tr @ [ExtractInfo url] @ tr' @ tr'')))))"

text \<open>
  Lines 97 to 134: \<open>except Exception as e\<close> reports the exception and returns
  \<open>False\<close>; an exception of that report is not caught by anything.
\<close>

definition download_video :: "downloader \<Rightarrow> dl_script \<Rightarrow> string \<Rightarrow> (exn + bool) \<times> event list" where
  "download_video self s url =
     (case try_download self s url of
        (Inr b, tr) \<Rightarrow> (Inr b, tr)
      | (Inl e, tr) \<Rightarrow>
          (case notify self (ErrorDownloading (str_exn e)) of
             (Some e', tr') \<Rightarrow> (Inl e', tr @ tr')
           | (None, tr') \<Rightarrow> (Inr False, tr @ tr')))"

text \<open>
  Lines 153 to 158: the \<open>for\<close> loop of \<open>download_mix\<close>, at the item numbered
  \<open>index\<close>, with \<open>len = len(video_urls)\<close> and the running tally.
\<close>

fun download_loop ::
  "downloader \<Rightarrow> (nat \<Rightarrow> dl_script) \<Rightarrow> nat \<Rightarrow> nat \<Rightarrow> string list \<Rightarrow> nat \<Rightarrow> (exn + nat) \<times> event list"
where
  "download_loop self dls len index [] successful_downloads = (Inr successful_downloads, [])"
| "download_loop self dls len index (video_url # rest) successful_downloads =
     (case notify self (Processing index len) of
        (Some e, tr) \<Rightarrow> (Inl e, tr)
      | (None, tr) \<Rightarrow>
          (case download_video self (dls index) video_url of
             (Inl e, tr') \<Rightarrow> (Inl e, tr @ tr')
           | (Inr ok, tr') \<Rightarrow>
               after (tr @ tr' @ [Sleep 1])
                 (download_loop self dls len (Suc index) rest
                    (if ok then successful_downloads + 1 else successful_downloads))))"

text \<open>Lines 147 to 163.\<close>

definition download_mix ::
  "downloader \<Rightarrow> env \<Rightarrow> (nat \<Rightarrow> dl_script) \<Rightarrow> string \<Rightarrow> int
     \<Rightarrow> ((exn + nat) \<times> event list) option" where
  "download_mix self w dls mix_url num_videos =
     (case notify self Starting of
        (Some e, tr) \<Rightarrow> Some (Inl e, tr)
      | (None, tr) \<Rightarrow>
          (case get_mix_videos self w mix_url num_videos of
             None \<Rightarrow> None
           | Some (Inl e, tr1) \<Rightarrow> Some (Inl e, tr @ tr1)
           | Some (Inr video_urls, tr1) \<Rightarrow>
               (case download_loop self dls (length video_urls) 1 video_urls 0 of
                  (Inl e, tr2) \<Rightarrow> Some (Inl e, tr @ tr1 @ tr2)
                | (Inr n, tr2) \<Rightarrow>
                    (case notify self (Complete n) of
                       (Some e, tr3) \<Rightarrow> Some (Inl e, tr @ tr1 @ tr2 @ tr3)
                     | (None, tr3) \<Rightarrow> Some (Inr n, tr @ tr1 @ tr2 @ tr3)))))"

subsection \<open>Vocabulary of the properties\<close>

text \<open>The position of the first occurrence of \<open>y\<close> in a list.\<close>

fun first_index :: "'a list \<Rightarrow> 'a \<Rightarrow> nat" where
  "first_index [] y = 0"
| "first_index (x # xs) y = (if x = y then 0 else Suc (first_index xs y))"

text \<open>The raw hrefs of one round that pass the test of line 70, in page order.\<close>

fun watch_hrefs :: "attr list \<Rightarrow> string list" where
  "watch_hrefs [] = []"
| "watch_hrefs (AttrRaises e # items) = watch_hrefs items"
| "watch_hrefs (Attr None # items) = watch_hrefs items"
| "watch_hrefs (Attr (Some href) # items) =
     (if href \<noteq> [] \<and> str_in ''watch?v='' href then href # watch_hrefs items
      else watch_hrefs items)"

fun round_hrefs :: "round \<Rightarrow> string list" where
  "round_hrefs (Found items) = watch_hrefs items"
| "round_hrefs (ScrollRaises e) = []"
| "round_hrefs (FindRaises e) = []"

text \<open>All raw hrefs harvested in the rounds before round \<open>k\<close>, in discovery order.\<close>

definition harvested :: "env \<Rightarrow> nat \<Rightarrow> string list" where
  "harvested w k = concat (map (\<lambda>j. round_hrefs (rounds w j)) [0..<k])"

text \<open>The callback, if there is one, raises on no message.\<close>

definition sink_quiet :: "downloader \<Rightarrow> bool" where
  "sink_quiet self =
     (case progress_callback self of None \<Rightarrow> True | Some cb \<Rightarrow> \<forall>text. cb text = None)"

text \<open>
  The results of \<open>download_video\<close> over the items of a batch whose first item is
  numbered \<open>i\<close>.
\<close>

definition outcomes ::
  "downloader \<Rightarrow> (nat \<Rightarrow> dl_script) \<Rightarrow> nat \<Rightarrow> string list \<Rightarrow> (exn + bool) list" where
  "outcomes self dls i urls =
     map (\<lambda>(k, url). fst (download_video self (dls k) url)) (zip [i..<i + length urls] urls)"

text \<open>
  The events of a batch that are index markers, and those that are the success or error
  message of an item; and the scripts on which \<open>download_video\<close> reaches line 129.
\<close>

fun is_marker :: "event \<Rightarrow> bool" where
  "is_marker (Notify (Processing i k)) = True"
| "is_marker e = False"

fun is_report :: "event \<Rightarrow> bool" where
  "is_report (Notify (Downloaded t)) = True"
| "is_report (Notify (ErrorDownloading e)) = True"
| "is_report e = False"

definition unreported :: "dl_script \<Rightarrow> bool" where
  "unreported s = ((path_exists s \<or> makedirs s = None) \<and> extract_info s = Inr NoInfo)"

text \<open>
  The value of \<open>video_urls\<close> when \<open>k\<close> rounds of the loop body have run on the empty
  list (lines 62 to 75, \<open>k\<close> times), or the exception the browser raised on the way.
\<close>

fun collected :: "env \<Rightarrow> nat \<Rightarrow> exn + string list" where
  "collected w 0 = Inr []"
| "collected w (Suc k) =
     (case collected w k of
        Inl e \<Rightarrow> Inl e
      | Inr video_urls \<Rightarrow>
          (case rounds w k of
             ScrollRaises e \<Rightarrow> Inl e
           | FindRaises e \<Rightarrow> Inl e
           | Found items \<Rightarrow> scroll_round (clean_youtube_url w) items video_urls))"

subsection \<open>Sample runs\<close>

text \<open>
  A page whose first round shows one video twice and whose later rounds show three
  videos; a normaliser that cuts an address at its first \<open>&\<close>; a service that fails
  on the second item.
\<close>

definition sample_env :: env where
  "sample_env =
     \<lparr> clean_youtube_url = takeWhile (\<lambda>c. c \<noteq> CHR ''&''),
       setup_driver = None,
       driver_get = None,
       rounds = (\<lambda>i. if i = 0
                      then Found [Attr (Some ''/watch?v=a&list=x''), Attr None,
                                  Attr (Some ''/watch?v=a&index=2'')]
                      else Found [Attr (Some ''/watch?v=a''), Attr (Some ''/watch?v=b&t=1''),
                                  Attr (Some ''/about''), Attr (Some ''/watch?v=c'')]),
       driver_quit = None \<rparr>"

definition sample_dls :: "nat \<Rightarrow> dl_script" where
  "sample_dls k =
     \<lparr> path_exists = (k \<noteq> 1), makedirs = None, hooks = [],
       extract_info = (if k = 2 then Inl (Exn ''boom'') else Inr (Info (Value ''t''))) \<rparr>"

definition sample_self :: downloader where
  "sample_self = \<lparr> output_path = ''downloads'', progress_callback = Some (\<lambda>text. None) \<rparr>"

text \<open>
  The same page, but the browser is gone after the first round; and a page that shows
  the same single video in every round.
\<close>

definition broken_env :: env where
  "broken_env =
     sample_env\<lparr>rounds := (\<lambda>i. if i = 0 then rounds sample_env 0
                                 else ScrollRaises (Exn ''gone''))\<rparr>"


text \<open>
  A service for which \<open>extract_info\<close> returns \<open>None\<close> on every item, and the sample
  service with the outcomes of the second and third item exchanged.
\<close>

definition silent_dls :: "nat \<Rightarrow> dl_script" where
  "silent_dls k =
     \<lparr> path_exists = True, makedirs = None, hooks = [], extract_info = Inr NoInfo \<rparr>"

definition swapped_dls :: "nat \<Rightarrow> dl_script" where
  "swapped_dls k = sample_dls (if k = 2 then 3 else if k = 3 then 2 else k)"

text \<open>A downloader whose callback raises when it is handed an error report.\<close>

definition touchy_self :: downloader where
  "touchy_self =
     \<lparr> output_path = ''downloads'',
       progress_callback =
         Some (\<lambda>text. if starts_with ''Error'' text then Some (Exn text) else None) \<rparr>"

section \<open>Properties\<close>

subsection \<open>Lists of keys\<close>

lemma first_index_less: "a \<in> set xs \<Longrightarrow> first_index xs a < length xs"
  by (induction xs) auto

lemma first_index_append:
  "first_index (xs @ ys) a =
     (if a \<in> set xs then first_index xs a else length xs + first_index ys a)"
  by (induction xs) auto

lemma fromkeys_distinct_append: "distinct (d @ ks) \<Longrightarrow> fromkeys ks d = d @ ks"
  by (induction ks arbitrary: d) auto

lemma fromkeys_append: "fromkeys (ks @ ks') d = fromkeys ks' (fromkeys ks d)"
  by (induction ks arbitrary: d) auto

lemma fromkeys_distinct: "distinct d \<Longrightarrow> distinct (fromkeys ks d)"
  by (induction ks arbitrary: d) auto

lemma fromkeys_set: "set (fromkeys ks d) = set d \<union> set ks"
  by (induction ks arbitrary: d) auto

lemma fromkeys_extends: "\<exists>more. fromkeys ks d = d @ more"
proof (induction ks arbitrary: d)
  case Nil
  then show ?case by simp
next
  case (Cons k ks)
  obtain more where
    "fromkeys ks (if k \<in> set d then d else d @ [k]) = (if k \<in> set d then d else d @ [k]) @ more"
    using Cons.IH by blast
  then show ?case by (cases "k \<in> set d") auto
qed

lemma distinct_order:
  "distinct d \<Longrightarrow> sorted_wrt (\<lambda>a b. first_index d a < first_index d b) d"
proof (induction d)
  case Nil
  then show ?case by simp
next
  case (Cons x d)
  have ih: "sorted_wrt (\<lambda>a b. first_index d a < first_index d b) d" using Cons by simp
  have "sorted_wrt (\<lambda>a b. first_index (x # d) a < first_index (x # d) b) d"
  proof (rule sorted_wrt_mono_rel[OF _ ih])
    fix a b assume "a \<in> set d" "b \<in> set d" "first_index d a < first_index d b"
    then show "first_index (x # d) a < first_index (x # d) b" using Cons.prems by auto
  qed
  then show ?case using Cons.prems by auto
qed

lemma first_index_skip:
  assumes "k \<in> set d" "first_index (d @ ks) a < first_index (d @ ks) b"
  shows "first_index (d @ k # ks) a < first_index (d @ k # ks) b"
proof (cases "a \<in> set d")
  case True
  then have a: "first_index d a < length d" by (rule first_index_less)
  show ?thesis
  proof (cases "b \<in> set d")
    case True
    with \<open>a \<in> set d\<close> assms show ?thesis by (simp add: first_index_append)
  next
    case False
    with \<open>a \<in> set d\<close> a assms(1) show ?thesis by (auto simp: first_index_append)
  qed
next
  case False
  show ?thesis
  proof (cases "b \<in> set d")
    case True
    then have "first_index d b < length d" by (rule first_index_less)
    with True False assms show ?thesis by (simp add: first_index_append)
  next
    case bd: False
    have "a \<noteq> k" "b \<noteq> k" using assms(1) False bd by auto
    with False bd assms show ?thesis by (simp add: first_index_append)
  qed
qed

lemma fromkeys_order:
  "distinct d \<Longrightarrow>
   sorted_wrt (\<lambda>a b. first_index (d @ ks) a < first_index (d @ ks) b) (fromkeys ks d)"
proof (induction ks arbitrary: d)
  case Nil
  then show ?case using distinct_order[of d] by simp
next
  case (Cons k ks)
  show ?case
  proof (cases "k \<in> set d")
    case True
    have ih: "sorted_wrt (\<lambda>a b. first_index (d @ ks) a < first_index (d @ ks) b) (fromkeys ks d)"
      using Cons.IH[OF Cons.prems] .
    have "sorted_wrt (\<lambda>a b. first_index (d @ k # ks) a < first_index (d @ k # ks) b)
            (fromkeys ks d)"
      by (rule sorted_wrt_mono_rel[OF _ ih]) (rule first_index_skip[OF True])
    then show ?thesis using True by simp
  next
    case False
    then have "distinct (d @ [k])" using Cons.prems by simp
    from Cons.IH[OF this] show ?thesis using False by simp
  qed
qed

subsection \<open>One round, and the rounds of a run\<close>

lemma harvest_fromkeys:
  "harvest clean items vs = Inr vs' \<Longrightarrow> vs' = fromkeys (map clean (watch_hrefs items)) vs"
  by (induction clean items vs rule: harvest.induct) (auto simp: Let_def split: if_splits)

lemma scroll_round_fromkeys:
  assumes "distinct vs" "scroll_round clean items vs = Inr vs'"
  shows "vs' = fromkeys (map clean (watch_hrefs items)) vs"
proof -
  obtain u where u: "harvest clean items vs = Inr u" and v: "vs' = fromkeys u []"
    using assms(2) by (auto simp: scroll_round_def split: sum.splits)
  have "u = fromkeys (map clean (watch_hrefs items)) vs" using harvest_fromkeys[OF u] .
  moreover have "distinct u" using calculation assms(1) by (simp add: fromkeys_distinct)
  ultimately show ?thesis using v fromkeys_distinct_append[of "[]" u] by simp
qed

lemma collected_fromkeys:
  "collected w k = Inr vs \<Longrightarrow> vs = fromkeys (map (clean_youtube_url w) (harvested w k)) []"
proof (induction k arbitrary: vs)
  case 0
  then show ?case by (simp add: harvested_def)
next
  case (Suc k)
  from Suc.prems obtain u items where u: "collected w k = Inr u" and r: "rounds w k = Found items"
    and s: "scroll_round (clean_youtube_url w) items u = Inr vs"
    by (auto split: sum.splits round.splits)
  have iu: "u = fromkeys (map (clean_youtube_url w) (harvested w k)) []" using Suc.IH[OF u] .
  then have "distinct u" by (simp add: fromkeys_distinct)
  from scroll_round_fromkeys[OF this s] iu r show ?case
    by (simp add: harvested_def fromkeys_append)
qed

lemma collected_distinct: "collected w k = Inr vs \<Longrightarrow> distinct vs"
  using collected_fromkeys[of w k vs] by (simp add: fromkeys_distinct)

lemma collected_earlier:
  "collected w k = Inr vs \<Longrightarrow> j \<le> k \<Longrightarrow> \<exists>u more. collected w j = Inr u \<and> vs = u @ more"
proof (induction k arbitrary: vs)
  case 0
  then show ?case by simp
next
  case (Suc k)
  show ?case
  proof (cases "j = Suc k")
    case True
    then show ?thesis using Suc.prems by simp
  next
    case False
    then have jk: "j \<le> k" using Suc.prems by simp
    from Suc.prems obtain v items where v: "collected w k = Inr v"
      and s: "scroll_round (clean_youtube_url w) items v = Inr vs"
      by (auto split: sum.splits round.splits)
    obtain u more where u: "collected w j = Inr u" "v = u @ more" using Suc.IH[OF v jk] by blast
    have "vs = fromkeys (map (clean_youtube_url w) (watch_hrefs items)) v"
      using scroll_round_fromkeys[OF collected_distinct[OF v] s] .
    then obtain more' where "vs = v @ more'" using fromkeys_extends by metis
    with u show ?thesis by auto
  qed
qed

text \<open>
  Claim C1. Whatever the browser shows, the list collected after any number of rounds has
  no entry twice; its entries are the normalised forms of the hrefs harvested so far, so
  two hrefs with one normalised form give one entry; the entries stand in the order in
  which their normalised form was first seen; and the list of every earlier round is an
  initial segment of it: the list grows and never shrinks. When normalising a normalised
  address changes nothing, the entries also differ pairwise after normalising them once
  more.
\<close>

theorem collected_unique_in_discovery_order:
  assumes "collected w k = Inr video_urls"
  shows "distinct video_urls
       \<and> set video_urls = clean_youtube_url w ` set (harvested w k)
       \<and> sorted_wrt (\<lambda>a b. first_index (map (clean_youtube_url w) (harvested w k)) a
                          < first_index (map (clean_youtube_url w) (harvested w k)) b) video_urls
       \<and> (\<forall>j\<le>k. \<exists>u more. collected w j = Inr u \<and> video_urls = u @ more)
       \<and> ((\<forall>href. clean_youtube_url w (clean_youtube_url w href) = clean_youtube_url w href)
            \<longrightarrow> distinct (map (clean_youtube_url w) video_urls))"
proof -
  let ?seen = "map (clean_youtube_url w) (harvested w k)"
  have eq: "video_urls = fromkeys ?seen []" using collected_fromkeys[OF assms] .
  have "distinct video_urls" using collected_distinct[OF assms] .
  moreover have "set video_urls = clean_youtube_url w ` set (harvested w k)"
    using eq by (simp add: fromkeys_set)
  moreover have "sorted_wrt (\<lambda>a b. first_index ?seen a < first_index ?seen b) video_urls"
    using fromkeys_order[of "[]" ?seen] eq by simp
  moreover have "\<forall>j\<le>k. \<exists>u more. collected w j = Inr u \<and> video_urls = u @ more"
    using collected_earlier[OF assms] by blast
  moreover have "distinct (map (clean_youtube_url w) video_urls)"
    if idem: "\<forall>href. clean_youtube_url w (clean_youtube_url w href) = clean_youtube_url w href"
  proof -
    have "map (clean_youtube_url w) video_urls = video_urls"
    proof (rule map_idI)
      fix x assume "x \<in> set video_urls"
      then obtain href where "x = clean_youtube_url w href"
        using \<open>set video_urls = clean_youtube_url w ` set (harvested w k)\<close> by auto
      then show "clean_youtube_url w x = x" using idem by simp
    qed
    then show ?thesis using \<open>distinct video_urls\<close> by simp
  qed
  ultimately show ?thesis by blast
qed

theorem collected_unique_in_discovery_order_witness:
  "collected sample_env (Suc (Suc 0)) = Inr [''/watch?v=a'', ''/watch?v=b'', ''/watch?v=c'']
   \<and> harvested sample_env (Suc (Suc 0)) =
       [''/watch?v=a&list=x'', ''/watch?v=a&index=2'', ''/watch?v=a'', ''/watch?v=b&t=1'',
        ''/watch?v=c'']
   \<and> distinct [''/watch?v=a'', ''/watch?v=b'', ''/watch?v=c'']
   \<and> distinct (map (clean_youtube_url sample_env)
                  [''/watch?v=a'', ''/watch?v=b'', ''/watch?v=c''])"
proof -
  have idem: "\<forall>href. clean_youtube_url sample_env (clean_youtube_url sample_env href)
                     = clean_youtube_url sample_env href"
    by (simp add: sample_env_def)
  have c2: "collected sample_env (Suc (Suc 0)) = Inr [''/watch?v=a'', ''/watch?v=b'', ''/watch?v=c'']"
    by (simp add: sample_env_def scroll_round_def)
  have h: "harvested sample_env (Suc (Suc 0)) =
       [''/watch?v=a&list=x'', ''/watch?v=a&index=2'', ''/watch?v=a'', ''/watch?v=b&t=1'',
        ''/watch?v=c'']"
    by (simp add: harvested_def sample_env_def)
  note t = collected_unique_in_discovery_order[OF c2]
  have d: "distinct [''/watch?v=a'', ''/watch?v=b'', ''/watch?v=c'']"
    using t by (rule conjunct1)
  have dm: "distinct (map (clean_youtube_url sample_env)
                  [''/watch?v=a'', ''/watch?v=b'', ''/watch?v=c''])"
    using t[THEN conjunct2, THEN conjunct2, THEN conjunct2, THEN conjunct2] idem by (rule mp)
  show ?thesis by (intro conjI c2 h d dm)
qed

text \<open>
  Claim C8. In every round of every run, the list the harvest of lines 68 to 73 leaves
  has no entry twice, so \<open>list(dict.fromkeys(video_urls))\<close> on line 75 gives it back
  unchanged: the round as a whole returns the list of the harvest.
\<close>

theorem safety_net_is_identity:
  assumes "collected w k = Inr video_urls"
      and "harvest (clean_youtube_url w) items video_urls = Inr vs"
  shows "fromkeys vs [] = vs \<and> scroll_round (clean_youtube_url w) items video_urls = Inr vs"
proof -
  have "distinct video_urls" using collected_distinct[OF assms(1)] .
  moreover have "vs = fromkeys (map (clean_youtube_url w) (watch_hrefs items)) video_urls"
    using harvest_fromkeys[OF assms(2)] .
  ultimately have "distinct vs" by (simp add: fromkeys_distinct)
  then have "fromkeys vs [] = vs" using fromkeys_distinct_append[of "[]" vs] by simp
  then show ?thesis using assms(2) by (simp add: scroll_round_def)
qed

theorem safety_net_is_identity_witness:
  "collected sample_env (Suc 0) = Inr [''/watch?v=a'']
   \<and> harvest (clean_youtube_url sample_env)
        [Attr (Some ''/watch?v=a''), Attr (Some ''/watch?v=b&t=1'')] [''/watch?v=a'']
       = Inr [''/watch?v=a'', ''/watch?v=b'']
   \<and> fromkeys [''/watch?v=a'', ''/watch?v=b''] [] = [''/watch?v=a'', ''/watch?v=b'']"
proof -
  have c1: "collected sample_env (Suc 0) = Inr [''/watch?v=a'']"
    by (simp add: sample_env_def scroll_round_def)
  have h: "harvest (clean_youtube_url sample_env)
        [Attr (Some ''/watch?v=a''), Attr (Some ''/watch?v=b&t=1'')] [''/watch?v=a'']
       = Inr [''/watch?v=a'', ''/watch?v=b'']"
    by (simp add: sample_env_def)
  from safety_net_is_identity[OF c1 h] c1 h show ?thesis by simp
qed

subsection \<open>The progress callback\<close>

lemma notify_quiet: "sink_quiet self \<Longrightarrow> fst (notify self m) = None"
  by (auto simp: sink_quiet_def notify_def split: option.splits)

lemma notify_events: "set (snd (notify self m)) \<subseteq> {Notify m}"
  by (auto simp: notify_def split: option.splits)

lemma sample_self_quiet: "sink_quiet sample_self"
  by (simp add: sink_quiet_def sample_self_def)

subsection \<open>The scroll loop\<close>

text \<open>
  What a run of the loop that returns has done: when it returns a list, that list is the
  one collected after some round \<open>k\<close>, it has reached the requested count, and no earlier
  round had; when it propagates an exception, the browser raised it in some round or the
  callback raised it on a progress message.
\<close>

lemma collected_Suc_Inr:
  "collected w (Suc i) = Inr vs' \<Longrightarrow>
     \<exists>vs items. collected w i = Inr vs \<and> rounds w i = Found items
        \<and> scroll_round (clean_youtube_url w) items vs = Inr vs'"
  by (auto split: sum.splits round.splits)

lemma collected_Inr_le:
  "collected w k = Inr out \<Longrightarrow> j \<le> k \<Longrightarrow> \<exists>u. collected w j = Inr u"
proof (induction k arbitrary: out)
  case 0
  then show ?case by simp
next
  case (Suc k)
  obtain v where v: "collected w k = Inr v" using collected_Suc_Inr[OF Suc.prems(1)] by blast
  show ?case
  proof (cases "j = Suc k")
    case True
    then show ?thesis using Suc.prems by simp
  next
    case False
    then show ?thesis using Suc.IH[OF v] Suc.prems(2) by simp
  qed
qed

lemma scroll_loop_sound:
  assumes run: "scroll_loop self w n i vs = Some y" and start: "collected w i = Inr vs"
  shows "(\<forall>out. fst y = Inr out \<longrightarrow>
        (\<exists>k\<ge>i. collected w k = Inr out \<and> n \<le> int (length out)
           \<and> (\<forall>j. i \<le> j \<and> j < k \<longrightarrow> (\<exists>u. collected w j = Inr u \<and> int (length u) < n))))
   \<and> (\<forall>e. fst y = Inl e \<longrightarrow>
        (\<exists>k. collected w k = Inl e
           \<or> (\<exists>u. collected w k = Inr u \<and> fst (notify self (FoundVideos (length u))) = Some e)))"
proof -
  let ?P = "\<lambda>(self::downloader) (w::env) (n::int) (i::nat) (vs::string list) (y::(exn + string list) \<times> event list).
     collected w i = Inr vs \<longrightarrow>
     (\<forall>out. fst y = Inr out \<longrightarrow>
        (\<exists>k\<ge>i. collected w k = Inr out \<and> n \<le> int (length out)
           \<and> (\<forall>j. i \<le> j \<and> j < k \<longrightarrow> (\<exists>u. collected w j = Inr u \<and> int (length u) < n))))
   \<and> (\<forall>e. fst y = Inl e \<longrightarrow>
        (\<exists>k. collected w k = Inl e
           \<or> (\<exists>u. collected w k = Inr u \<and> fst (notify self (FoundVideos (length u))) = Some e)))"
  have "?P self w n i vs y"
  proof (rule scroll_loop.raw_induct[where P = ?P, OF _ run], goal_cases)
    case (1 loop self w n i vs y)
    note body = 1(2)
    show ?case
    proof (intro impI)
      assume st: "collected w i = Inr vs"
      show "(\<forall>out. fst y = Inr out \<longrightarrow>
        (\<exists>k\<ge>i. collected w k = Inr out \<and> n \<le> int (length out)
           \<and> (\<forall>j. i \<le> j \<and> j < k \<longrightarrow> (\<exists>u. collected w j = Inr u \<and> int (length u) < n))))
       \<and> (\<forall>e. fst y = Inl e \<longrightarrow>
        (\<exists>k. collected w k = Inl e
           \<or> (\<exists>u. collected w k = Inr u \<and> fst (notify self (FoundVideos (length u))) = Some e)))"
      proof (cases "int (length vs) < n")
        case False
        then have "y = (Inr vs, [])" using body by simp
        then show ?thesis using False st by auto
      next
        case True
        show ?thesis
        proof (cases "rounds w i")
          case (ScrollRaises e)
          then have fy: "fst y = Inl e" using True body by auto
          have "collected w (Suc i) = Inl e" using ScrollRaises st by simp
          then have "\<exists>k. collected w k = Inl e
              \<or> (\<exists>u. collected w k = Inr u \<and> fst (notify self (FoundVideos (length u))) = Some e)"
            by blast
          then show ?thesis using fy by simp
        next
          case (FindRaises e)
          then have fy: "fst y = Inl e" using True body by auto
          have "collected w (Suc i) = Inl e" using FindRaises st by simp
          then have "\<exists>k. collected w k = Inl e
              \<or> (\<exists>u. collected w k = Inr u \<and> fst (notify self (FoundVideos (length u))) = Some e)"
            by blast
          then show ?thesis using fy by simp
        next
          case (Found items)
          show ?thesis
          proof (cases "scroll_round (clean_youtube_url w) items vs")
            case (Inl e)
            then have fy: "fst y = Inl e" using True Found body by auto
            have "collected w (Suc i) = Inl e" using Found Inl st by simp
            then have "\<exists>k. collected w k = Inl e
                \<or> (\<exists>u. collected w k = Inr u \<and> fst (notify self (FoundVideos (length u))) = Some e)"
              by blast
            then show ?thesis using fy by simp
          next
            case (Inr vs')
            have c: "collected w (Suc i) = Inr vs'" using Found Inr st by simp
            obtain ne tr where nt: "notify self (FoundVideos (length vs')) = (ne, tr)"
              by (cases "notify self (FoundVideos (length vs'))")
            show ?thesis
            proof (cases ne)
              case (Some e)
              then have fy: "fst y = Inl e" using True Found Inr nt body by auto
              have "fst (notify self (FoundVideos (length vs'))) = Some e" using nt Some by simp
              then have "\<exists>k. collected w k = Inl e
                  \<or> (\<exists>u. collected w k = Inr u \<and> fst (notify self (FoundVideos (length u))) = Some e)"
                using c by blast
              then show ?thesis using fy by simp
            next
              case None
              show ?thesis
              proof (cases "n \<le> int (length vs')")
                case reached: True
                then have y: "fst y = Inr vs'" using True Found Inr nt None body by auto
                have "\<forall>j. i \<le> j \<and> j < Suc i \<longrightarrow> (\<exists>u. collected w j = Inr u \<and> int (length u) < n)"
                  using True st by (auto simp: less_Suc_eq_le)
                then have "\<exists>k\<ge>i. collected w k = Inr vs' \<and> n \<le> int (length vs')
                   \<and> (\<forall>j. i \<le> j \<and> j < k \<longrightarrow> (\<exists>u. collected w j = Inr u \<and> int (length u) < n))"
                  using c reached by (intro exI[of _ "Suc i"]) simp
                then show ?thesis using y by simp
              next
                case False
                then obtain p where p: "loop self w n (Suc i) vs' = Some p" and y: "fst y = fst p"
                  using True Found Inr nt None body
                  by (auto simp: Option.bind_eq_Some_conv after_def)
                have ih: "(\<forall>out. fst p = Inr out \<longrightarrow>
                    (\<exists>k\<ge>Suc i. collected w k = Inr out \<and> n \<le> int (length out)
                       \<and> (\<forall>j. Suc i \<le> j \<and> j < k \<longrightarrow> (\<exists>u. collected w j = Inr u \<and> int (length u) < n))))
                   \<and> (\<forall>e. fst p = Inl e \<longrightarrow>
                    (\<exists>k. collected w k = Inl e
                       \<or> (\<exists>u. collected w k = Inr u \<and> fst (notify self (FoundVideos (length u))) = Some e)))"
                  using 1(1)[OF p] c by blast
                show ?thesis
                proof (intro conjI allI impI)
                  fix out assume "fst y = Inr out"
                  then obtain k where k: "k \<ge> Suc i" "collected w k = Inr out" "n \<le> int (length out)"
                    "\<forall>j. Suc i \<le> j \<and> j < k \<longrightarrow> (\<exists>u. collected w j = Inr u \<and> int (length u) < n)"
                    using ih y by auto
                  have "\<forall>j. i \<le> j \<and> j < k \<longrightarrow> (\<exists>u. collected w j = Inr u \<and> int (length u) < n)"
                  proof (intro allI impI)
                    fix j assume j: "i \<le> j \<and> j < k"
                    show "\<exists>u. collected w j = Inr u \<and> int (length u) < n"
                    proof (cases "j = i")
                      case True
                      then show ?thesis using \<open>int (length vs) < n\<close> st by simp
                    next
                      case False
                      then show ?thesis using j k(4) by auto
                    qed
                  qed
                  then show "\<exists>k\<ge>i. collected w k = Inr out \<and> n \<le> int (length out)
                     \<and> (\<forall>j. i \<le> j \<and> j < k \<longrightarrow> (\<exists>u. collected w j = Inr u \<and> int (length u) < n))"
                    using k by (intro exI[of _ k]) auto
                next
                  fix e assume "fst y = Inl e"
                  then show "\<exists>k. collected w k = Inl e
                    \<or> (\<exists>u. collected w k = Inr u \<and> fst (notify self (FoundVideos (length u))) = Some e)"
                    using ih y by auto
                qed
              qed
            qed
          qed
        qed
      qed
    qed
  qed
  then show ?thesis using start by blast
qed

lemma scroll_loop_complete:
  assumes quiet: "sink_quiet self"
  shows "collected w i = Inr vs \<Longrightarrow> i \<le> k \<Longrightarrow> collected w k = Inr out \<Longrightarrow>
         n \<le> int (length out) \<Longrightarrow> \<exists>out' tr. scroll_loop self w n i vs = Some (Inr out', tr)"
proof (induction "k - i" arbitrary: i vs)
  case 0
  then have "i = k" by simp
  then have "vs = out" using 0 by simp
  then have "\<not> int (length vs) < n" using 0 by simp
  then show ?case by (subst scroll_loop.simps) simp
next
  case (Suc d)
  show ?case
  proof (cases "int (length vs) < n")
    case False
    then show ?thesis by (subst scroll_loop.simps) simp
  next
    case True
    have "Suc i \<le> k" using Suc.hyps(2) by simp
    then obtain vs' where c: "collected w (Suc i) = Inr vs'"
      using collected_Inr_le[OF Suc.prems(3)] by blast
    then obtain items where r: "rounds w i = Found items"
      and s: "scroll_round (clean_youtube_url w) items vs = Inr vs'"
      using collected_Suc_Inr[OF c] Suc.prems(1) by auto
    obtain tr where nt: "notify self (FoundVideos (length vs')) = (None, tr)"
      using notify_quiet[OF quiet, of "FoundVideos (length vs')"]
      by (cases "notify self (FoundVideos (length vs'))") auto
    show ?thesis
    proof (cases "n \<le> int (length vs')")
      case reached: True
      show ?thesis using True r s nt reached by (subst scroll_loop.simps) simp
    next
      case False
      have "d = k - Suc i" using Suc.hyps(2) by simp
      from Suc.hyps(1)[OF this c \<open>Suc i \<le> k\<close> Suc.prems(3) Suc.prems(4)]
      obtain out' tr' where "scroll_loop self w n (Suc i) vs' = Some (Inr out', tr')" by blast
      then show ?thesis using True r s nt False
        by (subst scroll_loop.simps) (simp add: after_def)
    qed
  qed
qed


lemma scroll_loop_events:
  assumes run: "scroll_loop self w n i vs = Some y"
  shows "DriverQuit \<notin> set (snd y)"
proof -
  let ?P = "\<lambda>(self::downloader) (w::env) (n::int) (i::nat) (vs::string list)
              (y::(exn + string list) \<times> event list). DriverQuit \<notin> set (snd y)"
  show ?thesis
  proof (rule scroll_loop.raw_induct[where P = ?P, OF _ run], goal_cases)
    case (1 loop self w n i vs y)
    have nq: "\<And>m. DriverQuit \<notin> set (snd (notify self m))" using notify_events by fastforce
    show ?case
    proof (cases "int (length vs) < n")
      case False
      then show ?thesis using 1(2) by auto
    next
      case True
      show ?thesis
      proof (cases "rounds w i")
        case (Found items)
        show ?thesis
        proof (cases "scroll_round (clean_youtube_url w) items vs")
          case (Inr vs')
          obtain ne tr where nt: "notify self (FoundVideos (length vs')) = (ne, tr)"
            by (cases "notify self (FoundVideos (length vs'))")
          have tr: "DriverQuit \<notin> set tr" using nq[of "FoundVideos (length vs')"] nt by simp
          show ?thesis
          proof (cases "ne = None \<and> \<not> n \<le> int (length vs')")
            case True
            then obtain p where p: "loop self w n (Suc i) vs' = Some p"
              and y: "snd y = [ExecuteScript, Sleep 2, FindElements] @ tr @ snd p"
              using \<open>int (length vs) < n\<close> Found Inr nt 1(2)
              by (auto simp: Option.bind_eq_Some_conv after_def)
            show ?thesis using 1(1)[OF p] y tr by simp
          next
            case False
            then show ?thesis using \<open>int (length vs) < n\<close> Found Inr nt 1(2) tr
              by (cases ne) (auto split: if_splits)
          qed
        qed (use True Found 1(2) in auto)
      qed (use True 1(2) in auto)
    qed
  qed
qed




subsection \<open>get_mix_videos\<close>

lemma get_mix_videos_total:
  assumes "sink_quiet self" "setup_driver w = None" "driver_get w = None" "driver_quit w = None"
      and "collected w k = Inr vs" "n \<le> int (length vs)"
  shows "\<exists>out tr. get_mix_videos self w mix_url n = Some (Inr out, tr)"
proof -
  obtain out' tr' where run: "scroll_loop self w n 0 [] = Some (Inr out', tr')"
    using scroll_loop_complete[OF assms(1) _ _ assms(5,6), of 0 "[]"] by auto
  obtain t0 where nt: "notify self LoadingPage = (None, t0)"
    using notify_quiet[OF assms(1), of LoadingPage] by (cases "notify self LoadingPage") auto
  show ?thesis using run nt assms(2-4)
    by (simp add: get_mix_videos_def try_body_def after_def)
qed

text \<open>
  Claim C2. For a positive \<open>num_videos\<close>, whatever \<open>get_mix_videos\<close> returns is the
  first \<open>num_videos\<close> entries of the list collected in the first round that reached the
  count, and has exactly that length; and when the collected list reaches the count and
  neither the browser nor the callback raises, the method does return.
\<close>

theorem get_mix_videos_returns_first_n:
  assumes "0 < n"
  shows "(\<forall>out tr. get_mix_videos self w mix_url n = Some (Inr out, tr) \<longrightarrow>
            (\<exists>k vs. collected w k = Inr vs \<and> n \<le> int (length vs)
               \<and> (\<forall>j<k. \<exists>u. collected w j = Inr u \<and> int (length u) < n)
               \<and> out = take (nat n) vs \<and> int (length out) = n))
       \<and> (sink_quiet self \<and> setup_driver w = None \<and> driver_get w = None \<and> driver_quit w = None
            \<and> (\<exists>k vs. collected w k = Inr vs \<and> n \<le> int (length vs))
          \<longrightarrow> (\<exists>out tr. get_mix_videos self w mix_url n = Some (Inr out, tr)))"
proof (intro conjI allI impI)
  fix out tr
  assume ret: "get_mix_videos self w mix_url n = Some (Inr out, tr)"
  from ret obtain vs tr' where body: "try_body self w mix_url n = Some (Inr vs, tr')"
    and out: "out = slice_to vs n"
    by (auto simp: get_mix_videos_def split: option.splits sum.splits prod.splits)
  from body obtain p where run: "scroll_loop self w n 0 [] = Some p" and p: "fst p = Inr vs"
    by (auto simp: try_body_def after_def Option.bind_eq_Some_conv split: option.splits prod.splits)
  from scroll_loop_sound[OF run] p obtain k where k: "collected w k = Inr vs" "n \<le> int (length vs)"
    "\<forall>j. 0 \<le> j \<and> j < k \<longrightarrow> (\<exists>u. collected w j = Inr u \<and> int (length u) < n)"
    by auto
  have "out = take (nat n) vs" using out assms by (simp add: slice_to_def)
  moreover have "int (length out) = n" using calculation k(2) assms by simp
  ultimately show "\<exists>k vs. collected w k = Inr vs \<and> n \<le> int (length vs)
               \<and> (\<forall>j<k. \<exists>u. collected w j = Inr u \<and> int (length u) < n)
               \<and> out = take (nat n) vs \<and> int (length out) = n"
    using k by (intro exI[of _ k] exI[of _ vs]) simp
next
  assume "sink_quiet self \<and> setup_driver w = None \<and> driver_get w = None \<and> driver_quit w = None
            \<and> (\<exists>k vs. collected w k = Inr vs \<and> n \<le> int (length vs))"
  then show "\<exists>out tr. get_mix_videos self w mix_url n = Some (Inr out, tr)"
    using get_mix_videos_total by blast
qed

theorem get_mix_videos_returns_first_n_witness:
  "(0::int) < 2
   \<and> get_mix_videos sample_self sample_env ''mix'' 2 =
       Some (Inr [''/watch?v=a'', ''/watch?v=b''],
             [SetupDriver, Notify LoadingPage, DriverGet ''mix'', Sleep 3,
              ExecuteScript, Sleep 2, FindElements, Notify (FoundVideos 1),
              ExecuteScript, Sleep 2, FindElements, Notify (FoundVideos 3), DriverQuit])
   \<and> (\<exists>k vs. collected sample_env k = Inr vs \<and> 2 \<le> int (length vs)
          \<and> [''/watch?v=a'', ''/watch?v=b''] = take (nat 2) vs)"
proof -
  have pos: "(0::int) < 2" by simp
  have run: "get_mix_videos sample_self sample_env ''mix'' 2 =
       Some (Inr [''/watch?v=a'', ''/watch?v=b''],
             [SetupDriver, Notify LoadingPage, DriverGet ''mix'', Sleep 3,
              ExecuteScript, Sleep 2, FindElements, Notify (FoundVideos 1),
              ExecuteScript, Sleep 2, FindElements, Notify (FoundVideos 3), DriverQuit])"
    by code_simp
  from get_mix_videos_returns_first_n[OF pos, of sample_self sample_env "''mix''"] run pos
  show ?thesis by blast
qed

lemma get_mix_videos_distinct:
  assumes "get_mix_videos self w mix_url n = Some (Inr out, tr)"
  shows "distinct out"
proof -
  from assms obtain vs tr' where body: "try_body self w mix_url n = Some (Inr vs, tr')"
    and out: "out = slice_to vs n"
    by (auto simp: get_mix_videos_def split: option.splits sum.splits prod.splits)
  from body obtain p where run: "scroll_loop self w n 0 [] = Some p" and p: "fst p = Inr vs"
    by (auto simp: try_body_def after_def Option.bind_eq_Some_conv split: option.splits prod.splits)
  from scroll_loop_sound[OF run] p obtain k where "collected w k = Inr vs" by auto
  then have "distinct vs" by (rule collected_distinct)
  then show ?thesis using out by (simp add: slice_to_def)
qed

lemma try_body_no_quit:
  assumes "try_body self w mix_url n = Some (r, tr)"
  shows "DriverQuit \<notin> set tr"
proof -
  have nq: "\<And>m. DriverQuit \<notin> set (snd (notify self m))" using notify_events by fastforce
  obtain ne t0 where nt: "notify self LoadingPage = (ne, t0)" by (cases "notify self LoadingPage")
  have t0: "DriverQuit \<notin> set t0" using nq[of LoadingPage] nt by simp
  show ?thesis
  proof (cases "ne = None \<and> driver_get w = None")
    case True
    then obtain p where p: "scroll_loop self w n 0 [] = Some p"
      and tr: "tr = t0 @ [DriverGet mix_url, Sleep 3] @ snd p"
      using assms nt by (auto simp: try_body_def after_def Option.bind_eq_Some_conv)
    show ?thesis using scroll_loop_events[OF p] tr t0 by simp
  next
    case False
    then show ?thesis using assms nt t0
      by (auto simp: try_body_def split: option.splits)
  qed
qed

text \<open>
  Claim C5. Once the driver is set up, every run of \<open>get_mix_videos\<close> that ends, by
  returning or by propagating an exception of the browser, of the callback or of
  \<open>driver.quit()\<close> itself, has called \<open>driver.quit()\<close> exactly once, as its last
  action.
\<close>

theorem driver_quit_exactly_once:
  assumes "setup_driver w = None" and "get_mix_videos self w mix_url n = Some (r, tr)"
  shows "count_list tr DriverQuit = 1 \<and> last tr = DriverQuit"
proof -
  from assms obtain r' tr' where body: "try_body self w mix_url n = Some (r', tr')"
    and tr: "tr = SetupDriver # tr' @ [DriverQuit]"
    by (auto simp: get_mix_videos_def split: option.splits sum.splits prod.splits)
  have "DriverQuit \<notin> set tr'" using try_body_no_quit[OF body] .
  then have "count_list tr' DriverQuit = 0" by simp
  then show ?thesis using tr by simp
qed

theorem driver_quit_exactly_once_witness:
  "setup_driver sample_env = None
   \<and> (\<exists>out tr. get_mix_videos sample_self sample_env ''mix'' 2 = Some (Inr out, tr)
         \<and> count_list tr DriverQuit = 1 \<and> last tr = DriverQuit)
   \<and> setup_driver broken_env = None
   \<and> (\<exists>tr. get_mix_videos sample_self broken_env ''mix'' 2 = Some (Inl (Exn ''gone''), tr)
         \<and> count_list tr DriverQuit = 1 \<and> last tr = DriverQuit)"
proof -
  have s1: "setup_driver sample_env = None" by (simp add: sample_env_def)
  have s2: "setup_driver broken_env = None" by (simp add: broken_env_def sample_env_def)
  have r1: "get_mix_videos sample_self sample_env ''mix'' 2 =
       Some (Inr [''/watch?v=a'', ''/watch?v=b''],
             [SetupDriver, Notify LoadingPage, DriverGet ''mix'', Sleep 3,
              ExecuteScript, Sleep 2, FindElements, Notify (FoundVideos 1),
              ExecuteScript, Sleep 2, FindElements, Notify (FoundVideos 3), DriverQuit])"
    by code_simp
  have r2: "get_mix_videos sample_self broken_env ''mix'' 2 =
       Some (Inl (Exn ''gone''),
             [SetupDriver, Notify LoadingPage, DriverGet ''mix'', Sleep 3,
              ExecuteScript, Sleep 2, FindElements, Notify (FoundVideos 1),
              ExecuteScript, DriverQuit])"
    by code_simp
  from driver_quit_exactly_once[OF s1 r1] driver_quit_exactly_once[OF s2 r2] s1 s2 r1 r2
  show ?thesis by blast
qed

lemma scroll_loop_nonpositive: "n \<le> 0 \<Longrightarrow> scroll_loop self w n 0 [] = Some (Inr [], [])"
  by (subst scroll_loop.simps) simp

lemma try_body_nonpositive:
  assumes "n \<le> 0"
  shows "\<exists>r tr. try_body self w mix_url n = Some (r, tr)
           \<and> set tr \<subseteq> range Notify \<union> {DriverGet mix_url, Sleep 3}
           \<and> (\<forall>vs. r = Inr vs \<longrightarrow> vs = [])
           \<and> (driver_get w = None \<and> sink_quiet self \<longrightarrow> r = Inr [])"
proof -
  obtain e t0 where nt: "notify self LoadingPage = (e, t0)" by (cases "notify self LoadingPage")
  have t0: "set t0 \<subseteq> range Notify" using notify_events[of self LoadingPage] nt by auto
  have q: "sink_quiet self \<Longrightarrow> e = None" using notify_quiet[of self LoadingPage] nt by simp
  show ?thesis using nt t0 q scroll_loop_nonpositive[OF assms]
    by (cases e; cases "driver_get w") (auto simp: try_body_def after_def)
qed

lemma get_mix_videos_nonpositive:
  assumes "n \<le> 0"
  shows "\<exists>r tr. get_mix_videos self w mix_url n = Some (r, tr)
            \<and> set tr \<subseteq> range Notify \<union> {SetupDriver, DriverGet mix_url, Sleep 3, DriverQuit}
            \<and> (\<forall>out. r = Inr out \<longrightarrow> out = [])
            \<and> (setup_driver w = None \<and> driver_get w = None \<and> driver_quit w = None
                 \<and> sink_quiet self \<longrightarrow> r = Inr [])"
proof -
  obtain rb tb where body: "try_body self w mix_url n = Some (rb, tb)"
    and tb: "set tb \<subseteq> range Notify \<union> {DriverGet mix_url, Sleep 3}"
    and rb: "\<forall>vs. rb = Inr vs \<longrightarrow> vs = []"
    and qb: "driver_get w = None \<and> sink_quiet self \<longrightarrow> rb = Inr []"
    using try_body_nonpositive[OF assms, of self w mix_url] by blast
  show ?thesis
  proof (cases "setup_driver w")
    case (Some e)
    then show ?thesis by (simp add: get_mix_videos_def)
  next
    case None
    show ?thesis
    proof (cases "driver_quit w")
      case (Some e)
      then show ?thesis using None body tb by (auto simp: get_mix_videos_def)
    next
      case quit: None
      show ?thesis
      proof (cases rb)
        case (Inl e)
        then show ?thesis using None quit body tb qb by (auto simp: get_mix_videos_def)
      next
        case (Inr vs)
        then have "vs = []" using rb by simp
        then show ?thesis using Inr None quit body tb by (auto simp: get_mix_videos_def slice_to_def)
      qed
    qed
  qed
qed

text \<open>
  Claim C9. With \<open>num_videos\<close> zero or negative both methods end: \<open>get_mix_videos\<close>
  scrolls in no round, and what it returns is the empty list; \<open>download_mix\<close> calls the
  download service for no address, and what it returns is 0. When the browser and the
  callback do not raise, both do return.
\<close>

theorem nonpositive_count_is_benign:
  assumes "n \<le> 0"
  shows "(\<exists>r tr. get_mix_videos self w mix_url n = Some (r, tr)
            \<and> ExecuteScript \<notin> set tr
            \<and> (\<forall>out. r = Inr out \<longrightarrow> out = [])
            \<and> (setup_driver w = None \<and> driver_get w = None \<and> driver_quit w = None
                 \<and> sink_quiet self \<longrightarrow> r = Inr []))
       \<and> (\<exists>r tr. download_mix self w dls mix_url n = Some (r, tr)
            \<and> (\<forall>url. ExtractInfo url \<notin> set tr)
            \<and> (\<forall>m. r = Inr m \<longrightarrow> m = 0)
            \<and> (setup_driver w = None \<and> driver_get w = None \<and> driver_quit w = None
                 \<and> sink_quiet self \<longrightarrow> r = Inr 0))"
proof -
  obtain rg tg where g: "get_mix_videos self w mix_url n = Some (rg, tg)"
    and tg: "set tg \<subseteq> range Notify \<union> {SetupDriver, DriverGet mix_url, Sleep 3, DriverQuit}"
    and rg: "\<forall>out. rg = Inr out \<longrightarrow> out = []"
    and qg: "setup_driver w = None \<and> driver_get w = None \<and> driver_quit w = None
                 \<and> sink_quiet self \<longrightarrow> rg = Inr []"
    using get_mix_videos_nonpositive[OF assms, of self w mix_url] by blast
  have first: "\<exists>r tr. get_mix_videos self w mix_url n = Some (r, tr)
            \<and> ExecuteScript \<notin> set tr
            \<and> (\<forall>out. r = Inr out \<longrightarrow> out = [])
            \<and> (setup_driver w = None \<and> driver_get w = None \<and> driver_quit w = None
                 \<and> sink_quiet self \<longrightarrow> r = Inr [])"
    using g tg rg qg by auto
  obtain e0 t0 where n0: "notify self Starting = (e0, t0)" by (cases "notify self Starting")
  have t0: "set t0 \<subseteq> range Notify" using notify_events[of self Starting] n0 by auto
  have q0: "sink_quiet self \<Longrightarrow> e0 = None" using notify_quiet[of self Starting] n0 by simp
  obtain e1 t1 where n1: "notify self (Complete 0) = (e1, t1)" by (cases "notify self (Complete 0)")
  have t1: "set t1 \<subseteq> range Notify" using notify_events[of self "Complete 0"] n1 by auto
  have q1: "sink_quiet self \<Longrightarrow> e1 = None" using notify_quiet[of self "Complete 0"] n1 by simp
  have second: "\<exists>r tr. download_mix self w dls mix_url n = Some (r, tr)
            \<and> (\<forall>url. ExtractInfo url \<notin> set tr)
            \<and> (\<forall>m. r = Inr m \<longrightarrow> m = 0)
            \<and> (setup_driver w = None \<and> driver_get w = None \<and> driver_quit w = None
                 \<and> sink_quiet self \<longrightarrow> r = Inr 0)"
  proof (cases e0)
    case (Some e)
    then show ?thesis using n0 t0 q0 by (auto simp: download_mix_def)
  next
    case None
    show ?thesis
    proof (cases rg)
      case (Inl e)
      then show ?thesis using None n0 t0 g tg qg by (auto simp: download_mix_def)
    next
      case (Inr vs)
      then have "vs = []" using rg by simp
      then show ?thesis using Inr None n0 t0 g tg n1 t1 q1
        by (cases e1) (auto simp: download_mix_def)
    qed
  qed
  from first second show ?thesis by blast
qed

theorem nonpositive_count_is_benign_witness:
  "(-3::int) \<le> 0
   \<and> (\<exists>tr. get_mix_videos sample_self sample_env ''mix'' (-3) = Some (Inr [], tr)
         \<and> ExecuteScript \<notin> set tr)
   \<and> (\<exists>tr. download_mix sample_self sample_env sample_dls ''mix'' (-3) = Some (Inr 0, tr))"
proof -
  have neg: "(-3::int) \<le> 0" by simp
  have ok: "setup_driver sample_env = None \<and> driver_get sample_env = None
        \<and> driver_quit sample_env = None \<and> sink_quiet sample_self"
    using sample_self_quiet by (simp add: sample_env_def)
  from nonpositive_count_is_benign[OF neg, of sample_self sample_env "''mix''" sample_dls] ok neg
  show ?thesis by blast
qed

subsection \<open>download_video\<close>

lemma run_hooks_quiet: "sink_quiet self \<Longrightarrow> fst (run_hooks self ds) = None"
proof (induction ds)
  case Nil
  then show ?case by simp
next
  case (Cons d ds)
  let ?m = "Downloading (get_text (percent_str d) ''0%'')
                        (get_text (total_bytes_str d) ''Unknown'')"
  obtain tr where "notify self ?m = (None, tr)"
    using notify_quiet[OF Cons.prems, of ?m] by (cases "notify self ?m") auto
  then show ?case using Cons by (simp add: after_def)
qed

lemma try_download_quiet:
  assumes "sink_quiet self"
  shows "fst (try_download self s url) =
     (if \<not> path_exists s \<and> makedirs s \<noteq> None then Inl (the (makedirs s))
      else case extract_info s of
             Inl e \<Rightarrow> Inl e
           | Inr NoInfo \<Rightarrow> Inr False
           | Inr (Info title) \<Rightarrow> Inr True)"
proof -
  obtain th where h: "run_hooks self (hooks s) = (None, th)"
    using run_hooks_quiet[OF assms, of "hooks s"] by (cases "run_hooks self (hooks s)") auto
  have n: "\<And>m. \<exists>tr. notify self m = (None, tr)"
    using notify_quiet[OF assms] by (metis prod.collapse)
  show ?thesis
  proof (cases "extract_info s")
    case (Inl e)
    then show ?thesis using h by (auto simp: try_download_def split: option.splits)
  next
    case (Inr inf)
    show ?thesis
    proof (cases inf)
      case NoInfo
      then show ?thesis using h Inr by (auto simp: try_download_def split: option.splits)
    next
      case (Info title)
      obtain tr where "notify self (Downloaded (get_text title ''Unknown title'')) = (None, tr)"
        using n by blast
      then show ?thesis using h Inr Info by (auto simp: try_download_def split: option.splits)
    qed
  qed
qed

lemma download_video_quiet:
  assumes "sink_quiet self"
  shows "fst (download_video self s url) =
     Inr ((path_exists s \<or> makedirs s = None) \<and> (\<exists>title. extract_info s = Inr (Info title)))"
proof -
  obtain r tr where t: "try_download self s url = (r, tr)" by (cases "try_download self s url")
  have r: "r = (if \<not> path_exists s \<and> makedirs s \<noteq> None then Inl (the (makedirs s))
      else case extract_info s of
             Inl e \<Rightarrow> Inl e
           | Inr NoInfo \<Rightarrow> Inr False
           | Inr (Info title) \<Rightarrow> Inr True)"
    using try_download_quiet[OF assms, of s url] t by simp
  have n: "\<And>m. \<exists>tr. notify self m = (None, tr)"
    using notify_quiet[OF assms] by (metis prod.collapse)
  show ?thesis
  proof (cases r)
    case (Inr b)
    then show ?thesis using t r by (auto simp: download_video_def split: if_splits sum.splits info.splits)
  next
    case (Inl e)
    obtain tr' where "notify self (ErrorDownloading (str_exn e)) = (None, tr')" using n by blast
    then show ?thesis using t r Inl
      by (auto simp: download_video_def split: if_splits sum.splits info.splits)
  qed
qed

text \<open>
  Claim C10. With a callback that does not raise, \<open>download_video\<close> returns a
  boolean on every input: \<open>True\<close> when the directory step succeeds and the service
  returns metadata, \<open>False\<close> in every other case, so also when \<open>os.makedirs\<close> or the
  service raises. No exception leaves the method.
\<close>

theorem download_video_never_raises:
  assumes "sink_quiet self"
  shows "\<exists>tr. download_video self s url =
           (Inr ((path_exists s \<or> makedirs s = None) \<and> (\<exists>title. extract_info s = Inr (Info title))), tr)"
  using download_video_quiet[OF assms, of s url] by (cases "download_video self s url") simp

theorem download_video_never_raises_witness:
  "sink_quiet sample_self
   \<and> (\<exists>tr. download_video sample_self (sample_dls 2) ''/watch?v=b'' = (Inr False, tr))
   \<and> (\<exists>tr. download_video sample_self (sample_dls 1) ''/watch?v=a'' = (Inr True, tr))"
  using download_video_never_raises[OF sample_self_quiet, of "sample_dls 2" "''/watch?v=b''"]
        download_video_never_raises[OF sample_self_quiet, of "sample_dls 1" "''/watch?v=a''"]
        sample_self_quiet
  by (simp add: sample_dls_def)

subsection \<open>download_mix\<close>

lemma outcomes_Nil: "outcomes self dls i [] = []"
  by (simp add: outcomes_def)

lemma outcomes_Cons:
  "outcomes self dls i (url # rest) = fst (download_video self (dls i) url) # outcomes self dls (Suc i) rest"
proof -
  have "[i..<i + length (url # rest)] = i # [Suc i..<Suc i + length rest]"
    by (simp add: upt_rec[of i] del: upt_Suc)
  then show ?thesis by (simp add: outcomes_def del: upt_Suc)
qed

lemma download_loop_tally:
  "download_loop self dls len i urls s = (Inr m, tr) \<Longrightarrow>
     m = s + count_list (outcomes self dls i urls) (Inr True)"
proof (induction urls arbitrary: i s tr)
  case Nil
  then show ?case by (simp add: outcomes_Nil)
next
  case (Cons url rest)
  obtain ne t0 where nt: "notify self (Processing i len) = (ne, t0)"
    by (cases "notify self (Processing i len)")
  obtain r t1 where dv: "download_video self (dls i) url = (r, t1)"
    by (cases "download_video self (dls i) url")
  from Cons.prems nt dv obtain ok where ok: "r = Inr ok" and ne: "ne = None"
    by (cases ne; cases r) auto
  obtain r2 t2 where rest: "download_loop self dls len (Suc i) rest (if ok then s + 1 else s) = (r2, t2)"
    by (cases "download_loop self dls len (Suc i) rest (if ok then s + 1 else s)")
  have "r2 = Inr m" using Cons.prems nt dv ok ne rest by (simp add: after_def)
  then have "m = (if ok then s + 1 else s) + count_list (outcomes self dls (Suc i) rest) (Inr True)"
    using Cons.IH rest by blast
  then show ?case using dv ok by (simp add: outcomes_Cons)
qed

lemma download_loop_quiet:
  "sink_quiet self \<Longrightarrow> \<exists>m tr. download_loop self dls len i urls s = (Inr m, tr)"
proof (induction urls arbitrary: i s)
  case Nil
  then show ?case by simp
next
  case (Cons url rest)
  obtain t0 where nt: "notify self (Processing i len) = (None, t0)"
    using notify_quiet[OF Cons.prems, of "Processing i len"]
    by (cases "notify self (Processing i len)") auto
  obtain ok t1 where dv: "download_video self (dls i) url = (Inr ok, t1)"
    using download_video_quiet[OF Cons.prems, of "dls i" url]
    by (cases "download_video self (dls i) url") auto
  obtain m tr where "download_loop self dls len (Suc i) rest (if ok then s + 1 else s) = (Inr m, tr)"
    using Cons.IH[OF Cons.prems] by blast
  then show ?case using nt dv by (simp add: after_def)
qed

lemma download_mix_total:
  assumes "get_mix_videos self w mix_url n = Some (Inr video_urls, tr')" and "sink_quiet self"
  shows "\<exists>m tr. download_mix self w dls mix_url n = Some (Inr m, tr)"
proof -
  obtain t0 where n0: "notify self Starting = (None, t0)"
    using notify_quiet[OF assms(2), of Starting] by (cases "notify self Starting") auto
  obtain m t2 where l: "download_loop self dls (length video_urls) 1 video_urls 0 = (Inr m, t2)"
    using download_loop_quiet[OF assms(2)] by blast
  obtain t3 where n3: "notify self (Complete m) = (None, t3)"
    using notify_quiet[OF assms(2), of "Complete m"] by (cases "notify self (Complete m)") auto
  show ?thesis using n0 l n3 assms(1) by (simp add: download_mix_def)
qed

lemma download_mix_tally:
  assumes "download_mix self w dls mix_url n = Some (Inr m, tr)"
  shows "\<exists>video_urls tr'.
           get_mix_videos self w mix_url n = Some (Inr video_urls, tr')
         \<and> m = count_list (outcomes self dls 1 video_urls) (Inr True)
         \<and> (\<forall>dls' m' tr''.
               download_mix self w dls' mix_url n = Some (Inr m', tr'')
             \<and> mset (outcomes self dls' 1 video_urls) = mset (outcomes self dls 1 video_urls)
             \<longrightarrow> m' = m)"
proof -
  have key: "\<exists>video_urls tr'. get_mix_videos self w mix_url n = Some (Inr video_urls, tr')
       \<and> k = count_list (outcomes self d 1 video_urls) (Inr True)"
    if "download_mix self w d mix_url n = Some (Inr k, t)" for d k t
  proof -
    from that obtain video_urls tr' t2 where g: "get_mix_videos self w mix_url n = Some (Inr video_urls, tr')"
      and l: "download_loop self d (length video_urls) 1 video_urls 0 = (Inr k, t2)"
      by (auto simp: download_mix_def split: option.splits prod.splits sum.splits)
    from download_loop_tally[OF l] g show ?thesis by auto
  qed
  from key[OF assms] obtain video_urls tr' where
    g: "get_mix_videos self w mix_url n = Some (Inr video_urls, tr')"
    and m: "m = count_list (outcomes self dls 1 video_urls) (Inr True)" by blast
  have "m' = m" if "download_mix self w dls' mix_url n = Some (Inr m', tr'')"
    and "mset (outcomes self dls' 1 video_urls) = mset (outcomes self dls 1 video_urls)"
    for dls' m' tr''
  proof -
    from key[OF that(1)] g have "m' = count_list (outcomes self dls' 1 video_urls) (Inr True)"
      by auto
    then show ?thesis using m that(2) by (metis count_mset)
  qed
  then show ?thesis using g m by blast
qed

text \<open>
  Claim C3. The integer \<open>download_mix\<close> returns is the number of items of the URL
  list for which \<open>download_video\<close> returned \<open>True\<close>. It depends on the results only
  through their multiset: a service whose results over the same list are a permutation of
  them gives the same integer. With a callback that does not raise, a batch whose scrape
  returned a list does return that number.
\<close>

theorem download_mix_returns_success_count:
  "(\<forall>m tr. download_mix self w dls mix_url n = Some (Inr m, tr) \<longrightarrow>
      (\<exists>video_urls tr'.
           get_mix_videos self w mix_url n = Some (Inr video_urls, tr')
         \<and> m = count_list (outcomes self dls 1 video_urls) (Inr True)
         \<and> (\<forall>dls' m' tr''.
               download_mix self w dls' mix_url n = Some (Inr m', tr'')
             \<and> mset (outcomes self dls' 1 video_urls) = mset (outcomes self dls 1 video_urls)
             \<longrightarrow> m' = m)))
   \<and> (\<forall>video_urls tr'.
         get_mix_videos self w mix_url n = Some (Inr video_urls, tr') \<and> sink_quiet self \<longrightarrow>
         (\<exists>tr. download_mix self w dls mix_url n =
                 Some (Inr (count_list (outcomes self dls 1 video_urls) (Inr True)), tr)))"
proof (intro conjI allI impI)
  fix m tr
  assume "download_mix self w dls mix_url n = Some (Inr m, tr)"
  then show "\<exists>video_urls tr'.
           get_mix_videos self w mix_url n = Some (Inr video_urls, tr')
         \<and> m = count_list (outcomes self dls 1 video_urls) (Inr True)
         \<and> (\<forall>dls' m' tr''.
               download_mix self w dls' mix_url n = Some (Inr m', tr'')
             \<and> mset (outcomes self dls' 1 video_urls) = mset (outcomes self dls 1 video_urls)
             \<longrightarrow> m' = m)"
    by (rule download_mix_tally)
next
  fix video_urls tr'
  assume a: "get_mix_videos self w mix_url n = Some (Inr video_urls, tr') \<and> sink_quiet self"
  then obtain m tr where run: "download_mix self w dls mix_url n = Some (Inr m, tr)"
    using download_mix_total by blast
  from download_mix_tally[OF run] a
  have "m = count_list (outcomes self dls 1 video_urls) (Inr True)" by auto
  then show "\<exists>tr. download_mix self w dls mix_url n =
                 Some (Inr (count_list (outcomes self dls 1 video_urls) (Inr True)), tr)"
    using run by blast
qed

theorem download_mix_returns_success_count_witness:
  "(\<exists>tr. download_mix sample_self sample_env sample_dls ''mix'' 3 = Some (Inr 2, tr))
   \<and> outcomes sample_self sample_dls 1 [''/watch?v=a'', ''/watch?v=b'', ''/watch?v=c'']
       = [Inr True, Inr False, Inr True]
   \<and> outcomes sample_self swapped_dls 1 [''/watch?v=a'', ''/watch?v=b'', ''/watch?v=c'']
       = [Inr True, Inr True, Inr False]
   \<and> (\<exists>tr. download_mix sample_self sample_env swapped_dls ''mix'' 3 = Some (Inr 2, tr))"
proof -
  have g: "get_mix_videos sample_self sample_env ''mix'' 3 =
       Some (Inr [''/watch?v=a'', ''/watch?v=b'', ''/watch?v=c''],
             [SetupDriver, Notify LoadingPage, DriverGet ''mix'', Sleep 3,
              ExecuteScript, Sleep 2, FindElements, Notify (FoundVideos 1),
              ExecuteScript, Sleep 2, FindElements, Notify (FoundVideos 3), DriverQuit])"
    by code_simp
  have o1: "outcomes sample_self sample_dls 1 [''/watch?v=a'', ''/watch?v=b'', ''/watch?v=c'']
       = [Inr True, Inr False, Inr True]" by code_simp
  have o2: "outcomes sample_self swapped_dls 1 [''/watch?v=a'', ''/watch?v=b'', ''/watch?v=c'']
       = [Inr True, Inr True, Inr False]" by code_simp
  obtain tr1 where run1: "download_mix sample_self sample_env sample_dls ''mix'' 3 =
      Some (Inr (count_list (outcomes sample_self sample_dls 1
                   [''/watch?v=a'', ''/watch?v=b'', ''/watch?v=c'']) (Inr True)), tr1)"
    using download_mix_returns_success_count[of sample_self sample_env sample_dls "''mix''" 3]
          g sample_self_quiet by blast
  obtain tr2 where run2: "download_mix sample_self sample_env swapped_dls ''mix'' 3 =
      Some (Inr (count_list (outcomes sample_self swapped_dls 1
                   [''/watch?v=a'', ''/watch?v=b'', ''/watch?v=c'']) (Inr True)), tr2)"
    using download_mix_returns_success_count[of sample_self sample_env swapped_dls "''mix''" 3]
          g sample_self_quiet by blast
  have "download_mix sample_self sample_env sample_dls ''mix'' 3 = Some (Inr 2, tr1)"
    using run1 unfolding o1 by simp
  moreover have "download_mix sample_self sample_env swapped_dls ''mix'' 3 = Some (Inr 2, tr2)"
    using run2 unfolding o2 by simp
  ultimately show ?thesis using o1 o2 by blast
qed

lemma download_loop_append:
  "download_loop self dls len i xs s = (Inr a, tr) \<Longrightarrow>
   download_loop self dls len i (xs @ ys) s = after tr (download_loop self dls len (i + length xs) ys a)"
proof (induction xs arbitrary: i s tr)
  case Nil
  then show ?case by (simp add: after_def)
next
  case (Cons url rest)
  obtain ne t0 where nt: "notify self (Processing i len) = (ne, t0)"
    by (cases "notify self (Processing i len)")
  obtain r t1 where dv: "download_video self (dls i) url = (r, t1)"
    by (cases "download_video self (dls i) url")
  from Cons.prems nt dv obtain ok where ok: "r = Inr ok" and ne: "ne = None"
    by (cases ne; cases r) auto
  obtain r2 t2 where rest: "download_loop self dls len (Suc i) rest (if ok then s + 1 else s) = (r2, t2)"
    by (cases "download_loop self dls len (Suc i) rest (if ok then s + 1 else s)")
  have r2: "r2 = Inr a" and tr: "tr = t0 @ t1 @ [Sleep 1] @ t2"
    using Cons.prems nt dv ok ne rest by (simp_all add: after_def)
  from Cons.IH[OF rest[unfolded r2]] show ?case
    using nt dv ok ne tr by (simp add: after_def)
qed

lemma download_loop_shift_gen:
  "download_loop self dls len i urls s =
     (map_sum (\<lambda>e. e) (\<lambda>m. s + m) (fst (download_loop self dls len i urls 0)),
      snd (download_loop self dls len i urls 0))"
proof (induction urls arbitrary: i s)
  case Nil
  then show ?case by simp
next
  case (Cons url rest)
  obtain ne t0 where nt: "notify self (Processing i len) = (ne, t0)"
    by (cases "notify self (Processing i len)")
  obtain r t1 where dv: "download_video self (dls i) url = (r, t1)"
    by (cases "download_video self (dls i) url")
  obtain r0 t2 where l0: "download_loop self dls len (Suc i) rest 0 = (r0, t2)"
    by (cases "download_loop self dls len (Suc i) rest 0")
  have l: "download_loop self dls len (Suc i) rest c = (map_sum (\<lambda>e. e) (\<lambda>m. c + m) r0, t2)" for c
    using Cons.IH[of "Suc i" c] l0 by simp
  show ?case
  proof (cases ne)
    case (Some e)
    then show ?thesis using nt by simp
  next
    case None
    show ?thesis
    proof (cases r)
      case (Inl e)
      then show ?thesis using nt None dv by simp
    next
      case (Inr ok)
      show ?thesis using nt None dv Inr l[of "s + 1"] l[of s] l[of 1] l0
        by (cases r0) (auto simp: after_def)
    qed
  qed
qed

lemma download_loop_shift:
  "download_loop self dls len i urls 0 = (Inr b, tr) \<Longrightarrow>
   download_loop self dls len i urls s = (Inr (s + b), tr)"
  using download_loop_shift_gen[of self dls len i urls s] by simp

text \<open>
  Claim C4, for a downloader without a callback or with one that does not raise. Let the
  service raise, or return no metadata, on the item that follows the items \<open>before\<close>. Then \<open>download_video\<close>
  returns \<open>False\<close> for it, the loop goes on: the items of \<open>rest\<close> are processed
  exactly as a batch of their own would be (the same events, \<open>tr2\<close>), the batch
  returns, and its tally is the sum of the tallies of \<open>before\<close> and of \<open>rest\<close>.
\<close>

theorem failed_item_does_not_stop_batch:
  assumes "sink_quiet self"
      and "extract_info (dls (i + length before)) = Inl e
           \<or> extract_info (dls (i + length before)) = Inr NoInfo"
  shows "\<exists>a b tr1 trk tr2.
           download_loop self dls len i before 0 = (Inr a, tr1)
         \<and> download_video self (dls (i + length before)) url = (Inr False, trk)
         \<and> download_loop self dls len (Suc (i + length before)) rest 0 = (Inr b, tr2)
         \<and> download_loop self dls len i (before @ url # rest) 0 =
             (Inr (a + b),
              tr1 @ snd (notify self (Processing (i + length before) len)) @ trk @ [Sleep 1] @ tr2)"
proof -
  obtain a tr1 where l1: "download_loop self dls len i before 0 = (Inr a, tr1)"
    using download_loop_quiet[OF assms(1)] by blast
  obtain b tr2 where l2: "download_loop self dls len (Suc (i + length before)) rest 0 = (Inr b, tr2)"
    using download_loop_quiet[OF assms(1)] by blast
  have "fst (download_video self (dls (i + length before)) url) = Inr False"
    using download_video_quiet[OF assms(1), of "dls (i + length before)" url] assms(2) by auto
  then obtain trk where dv: "download_video self (dls (i + length before)) url = (Inr False, trk)"
    by (cases "download_video self (dls (i + length before)) url") auto
  obtain t0 where nt: "notify self (Processing (i + length before) len) = (None, t0)"
    using notify_quiet[OF assms(1), of "Processing (i + length before) len"]
    by (cases "notify self (Processing (i + length before) len)") auto
  have "download_loop self dls len i (before @ url # rest) 0 =
          after tr1 (download_loop self dls len (i + length before) (url # rest) a)"
    using download_loop_append[OF l1] .
  also have "\<dots> = (Inr (a + b), tr1 @ t0 @ trk @ [Sleep 1] @ tr2)"
    using nt dv download_loop_shift[OF l2, of a] by (simp add: after_def)
  finally show ?thesis using l1 l2 dv nt by simp
qed

theorem failed_item_does_not_stop_batch_witness:
  "sink_quiet sample_self
   \<and> extract_info (sample_dls (1 + length [''/watch?v=a''])) = Inl (Exn ''boom'')
   \<and> (\<exists>a b tr1 trk tr2.
           download_loop sample_self sample_dls 3 1 [''/watch?v=a''] 0 = (Inr a, tr1)
         \<and> download_video sample_self (sample_dls (1 + length [''/watch?v=a''])) ''/watch?v=b''
             = (Inr False, trk)
         \<and> download_loop sample_self sample_dls 3 (Suc (1 + length [''/watch?v=a'']))
              [''/watch?v=c''] 0 = (Inr b, tr2)
         \<and> download_loop sample_self sample_dls 3 1
              ([''/watch?v=a''] @ ''/watch?v=b'' # [''/watch?v=c'']) 0 =
             (Inr (a + b),
              tr1 @ snd (notify sample_self (Processing (1 + length [''/watch?v=a'']) 3))
                  @ trk @ [Sleep 1] @ tr2))"
proof -
  have f: "extract_info (sample_dls (1 + length [''/watch?v=a''])) = Inl (Exn ''boom'')"
    by (simp add: sample_dls_def)
  then have f': "extract_info (sample_dls (1 + length [''/watch?v=a''])) = Inl (Exn ''boom'')
      \<or> extract_info (sample_dls (1 + length [''/watch?v=a''])) = Inr NoInfo" by (rule disjI1)
  from failed_item_does_not_stop_batch[where i = 1 and before = "[''/watch?v=a'']"
         and dls = sample_dls and e = "Exn ''boom''" and len = 3 and url = "''/watch?v=b''"
         and rest = "[''/watch?v=c'']", OF sample_self_quiet f']
       f sample_self_quiet
  show ?thesis by blast
qed

text \<open>
  Claim C4 without the condition on the callback fails. The \<open>except\<close> branch of lines
  131 to 134 calls the callback itself, and line 156 stands in no \<open>try\<close>: when the
  service raises on the second of three items and the callback raises on the error
  report, that exception leaves \<open>download_video\<close> and \<open>download_mix\<close>; the third
  item is never handed to the service and no tally is returned.
\<close>

theorem raising_callback_aborts_batch:
  "extract_info (sample_dls 2) = Inl (Exn ''boom'')
   \<and> download_mix touchy_self sample_env sample_dls ''mix'' 3 =
       Some (Inl (Exn ''Error downloading video: boom''),
         [Notify Starting, SetupDriver, Notify LoadingPage, DriverGet ''mix'', Sleep 3,
          ExecuteScript, Sleep 2, FindElements, Notify (FoundVideos 1),
          ExecuteScript, Sleep 2, FindElements, Notify (FoundVideos 3), DriverQuit,
          Notify (Processing 1 3), PathExists ''downloads'', MakeDirs ''downloads'',
          ExtractInfo ''/watch?v=a'', Notify (Downloaded ''t''), Sleep 1,
          Notify (Processing 2 3), PathExists ''downloads'', ExtractInfo ''/watch?v=b'',
          Notify (ErrorDownloading ''boom'')])"
  by code_simp

text \<open>
  What the callback hears of a batch, when there is one and it does not raise: one index
  marker for each item, and one success or error message for each item but those for
  which the service returns no metadata.
\<close>

lemma run_hooks_trace:
  "filter is_marker (snd (run_hooks self ds)) = [] \<and> filter is_report (snd (run_hooks self ds)) = []"
proof (induction ds)
  case Nil
  then show ?case by simp
next
  case (Cons d ds)
  then show ?case
    by (auto simp: notify_def after_def split: option.splits prod.splits)
qed

lemma download_video_messages:
  assumes cb: "progress_callback self = Some cb" and quiet: "sink_quiet self"
  shows "filter is_marker (snd (download_video self s url)) = []
       \<and> length (filter is_report (snd (download_video self s url)))
           = (if unreported s then 0 else 1)"
proof -
  obtain th where h: "run_hooks self (hooks s) = (None, th)"
    using run_hooks_quiet[OF quiet, of "hooks s"] by (cases "run_hooks self (hooks s)") auto
  have th: "filter is_marker th = []" "filter is_report th = []"
    using run_hooks_trace[of self "hooks s"] h by simp_all
  have n: "notify self m = (None, [Notify m])" for m
    using cb quiet by (simp add: notify_def sink_quiet_def)
  show ?thesis
  proof (cases "\<not> path_exists s \<and> makedirs s \<noteq> None")
    case True
    then show ?thesis using n
      by (auto simp: download_video_def try_download_def unreported_def)
  next
    case False
    then have dir: "(if \<not> path_exists s
            then (makedirs s, [PathExists (output_path self), MakeDirs (output_path self)])
            else (None, [PathExists (output_path self)]))
        = (None, if \<not> path_exists s then [PathExists (output_path self), MakeDirs (output_path self)]
                 else [PathExists (output_path self)])" by auto
    show ?thesis
    proof (cases "extract_info s")
      case (Inl e)
      then show ?thesis using False h th n dir
        by (auto simp: download_video_def try_download_def unreported_def)
    next
      case (Inr inf)
      then show ?thesis using False h th n dir
        by (cases inf) (auto simp: download_video_def try_download_def unreported_def)
    qed
  qed
qed

lemma download_loop_messages:
  assumes cb: "progress_callback self = Some cb" and quiet: "sink_quiet self"
  shows "length (filter is_marker (snd (download_loop self dls len i urls s))) = length urls
       \<and> length (filter is_report (snd (download_loop self dls len i urls s)))
           = length (filter (\<lambda>k. \<not> unreported (dls k)) [i..<i + length urls])"
proof (induction urls arbitrary: i s)
  case Nil
  then show ?case by simp
next
  case (Cons url rest)
  have n: "notify self (Processing i len) = (None, [Notify (Processing i len)])"
    using cb quiet by (simp add: notify_def sink_quiet_def)
  obtain ok t1 where dv: "download_video self (dls i) url = (Inr ok, t1)"
    using download_video_quiet[OF quiet, of "dls i" url]
    by (cases "download_video self (dls i) url") auto
  have t1: "filter is_marker t1 = []"
    "length (filter is_report t1) = (if unreported (dls i) then 0 else 1)"
    using download_video_messages[OF cb quiet, of "dls i" url] dv by simp_all
  have up: "[i..<i + length (url # rest)] = i # [Suc i..<Suc i + length rest]"
    by (simp add: upt_rec[of i] del: upt_Suc)
  show ?case using n dv t1 Cons.IH[of "Suc i" "if ok then s + 1 else s"]
    unfolding up by (simp add: after_def del: upt_Suc)
qed

text \<open>
  Claim C7, at a batch of one address for which the service returns \<open>None\<close>: the
  callback hears the index marker of the item and then nothing about it, neither a
  success message nor an error report; the next message is the final summary. The
  branch \<open>return False\<close> of line 129 reports nothing, where the \<open>except\<close> branch of
  lines 131 to 134 reports the failure.
\<close>

theorem missing_metadata_is_not_reported:
  "download_mix sample_self sample_env silent_dls ''mix'' 1 =
     Some (Inr 0,
       [Notify Starting, SetupDriver, Notify LoadingPage, DriverGet ''mix'', Sleep 3,
        ExecuteScript, Sleep 2, FindElements, Notify (FoundVideos 1), DriverQuit,
        Notify (Processing 1 1), PathExists ''downloads'', ExtractInfo ''/watch?v=a'',
        Sleep 1, Notify (Complete 0)])"
  by code_simp

end
